theory Spec2Isabelle
  imports Complex_Main "HOL-Library.Multiset"
begin

section \<open>Data model\<close>

text \<open>
  A discrete random variable is a two-column array: column 0 holds the values, column 1
  the probability mass of each value. It is modelled as the list of its rows. All numbers
  are exact reals (the source computes in floating point).
\<close>

type_synonym dist = "(real \<times> real) list"

text \<open>
  The exceptions the four functions can raise:
  \<^item> \<open>IndexError\<close>: \<open>list.pop\<close> on an empty list, or index \<open>0\<close> / \<open>-1\<close> of an array
    without rows;
  \<^item> \<open>ShapeError\<close>: the \<open>ValueError\<close> of \<open>np.vstack\<close> on rows of different lengths;
  \<^item> \<open>ArangeError\<close>: \<open>np.arange\<close> with step zero;
  \<^item> \<open>FFTSizeError\<close>: the \<open>ValueError\<close> of \<open>np.fft.fft\<close> for a number of points below 1;
  \<^item> \<open>DomainError\<close>: the \<open>ValueError\<close> that \<open>somaVADs_hib\<close> raises itself for a
    repetition count below 1.
\<close>

datatype error = IndexError | ShapeError | ArangeError | FFTSizeError | DomainError

section \<open>The numpy operations used by the source\<close>

text \<open>\<open>np.arange(start, stop, step)\<close>: \<open>ceil((stop - start) / step)\<close> points
  \<open>start + i * step\<close> (none when that number is negative).\<close>

definition arange :: "real \<Rightarrow> real \<Rightarrow> real \<Rightarrow> error + real list" where
  "arange start stop step =
     (if step = 0 then Inl ArangeError
      else Inr (map (\<lambda>i. start + real i * step) [0..<nat \<lceil>(stop - start) / step\<rceil>]))"

text \<open>\<open>np.convolve(a, v, mode="full")\<close> for non-empty \<open>a\<close> and \<open>v\<close>: entry \<open>k\<close> is the
  sum of the products \<open>a[m] * v[k - m]\<close> over the indices where both exist.\<close>

definition convolve :: "real list \<Rightarrow> real list \<Rightarrow> real list" where
  "convolve a v =
     map (\<lambda>k. \<Sum>m<length a. if m \<le> k \<and> k - m < length v then a ! m * v ! (k - m) else 0)
       [0..<length a + length v - 1]"

text \<open>\<open>np.vstack([S, P]).T\<close>: the rows \<open>(S[i], P[i])\<close>; numpy refuses rows of
  different lengths.\<close>

definition vstack_T :: "real list \<Rightarrow> real list \<Rightarrow> error + dist" where
  "vstack_T S P = (if length S = length P then Inr (zip S P) else Inl ShapeError)"

text \<open>\<open>np.fft.fft(a, n)\<close>: the input is cut or zero-padded to \<open>n\<close> points, then
  \<open>A[k] = sum_m a[m] * exp(-2 pi i m k / n)\<close>. Below 1 point numpy raises.\<close>

definition pad_to :: "nat \<Rightarrow> real list \<Rightarrow> real list" where
  "pad_to n a = take n a @ replicate (n - length a) 0"

definition dft :: "nat \<Rightarrow> (nat \<Rightarrow> complex) \<Rightarrow> nat \<Rightarrow> complex" where
  "dft n f k = (\<Sum>m<n. f m * cis (- (2 * pi * real m * real k / real n)))"

definition fft :: "real list \<Rightarrow> nat \<Rightarrow> error + complex list" where
  "fft a n =
     (if n < 1 then Inl FFTSizeError
      else Inr (map (dft n (\<lambda>m. complex_of_real (pad_to n a ! m))) [0..<n]))"

text \<open>\<open>np.fft.ifft(A)\<close>: \<open>a[m] = (1 / n) * sum_k A[k] * exp(2 pi i m k / n)\<close>.\<close>

definition idft :: "nat \<Rightarrow> (nat \<Rightarrow> complex) \<Rightarrow> nat \<Rightarrow> complex" where
  "idft n F j = (\<Sum>k<n. F k * cis (2 * pi * real j * real k / real n)) / of_nat n"

definition ifft :: "complex list \<Rightarrow> complex list" where
  "ifft A = map (idft (length A) (\<lambda>k. A ! k)) [0..<length A]"

section \<open>somaVADs_biv\<close>

text \<open>\<open>zip(somas.ravel(), F_W.ravel())\<close>: the outer sum of the values and the outer
  product of the probabilities, both read row by row.\<close>

definition outer_pairs :: "dist \<Rightarrow> dist \<Rightarrow> (real \<times> real) list" where
  "outer_pairs X1 X2 = concat (map (\<lambda>(a, p). map (\<lambda>(b, q). (a + b, p * q)) X2) X1)"

text \<open>The dictionary \<open>P_Z\<close>, as an association list in insertion order:
  \<open>P_Z[soma] += prob\<close> for a key that is present, \<open>P_Z[soma] = prob\<close> otherwise.\<close>

fun dict_add :: "(real \<times> real) list \<Rightarrow> real \<Rightarrow> real \<Rightarrow> (real \<times> real) list" where
  "dict_add [] soma prob = [(soma, prob)]"
| "dict_add ((k, v) # P_Z) soma prob =
     (if soma = k then (k, v + prob) # P_Z else (k, v) # dict_add P_Z soma prob)"

definition biv_merge :: "dist \<Rightarrow> dist \<Rightarrow> dist" where
  "biv_merge X1 X2 = fold (\<lambda>(soma, prob) P_Z. dict_add P_Z soma prob) (outer_pairs X1 X2) []"

text \<open>
  The function returns its result together with the contents of the caller's list object
  when the call ends: \<open>pop\<close> and \<open>append\<close> act on that object.
  \<open>VADs[0][VADs[0][:,0].argsort()]\<close> is the rows sorted by value (rows of equal value
  stay in their order here; numpy does not promise that order).
\<close>

function somaVADs_biv :: "dist list \<Rightarrow> (error + dist) \<times> dist list" where
  "somaVADs_biv VADs =
     (if length VADs = 1 then (Inr (sort_key fst (VADs ! 0)), VADs)
      else if VADs = [] then (Inl IndexError, VADs)
      else
        let X1 = last VADs; VADs1 = butlast VADs;
            X2 = last VADs1; VADs2 = butlast VADs1
        in somaVADs_biv (VADs2 @ [biv_merge X1 X2]))"
  by pat_completeness auto
termination
  by (relation "measure length")
     (simp_all add: Let_def Suc_lessI less_Suc_eq_le flip: length_greater_0_conv)

section \<open>somaVADs_conv\<close>

text \<open>
  The recursive call of the source is \<open>somaVADs_conv(VADs)\<close>: it does not pass
  \<open>delta\<close> on, so every merge after the first one runs with the default \<open>delta = 1\<close>.
\<close>

function somaVADs_conv :: "dist list \<Rightarrow> real \<Rightarrow> (error + dist) \<times> dist list" where
  "somaVADs_conv VADs delta =
     (if length VADs = 1 then (Inr (VADs ! 0), VADs)
      else if VADs = [] then (Inl IndexError, VADs)
      else
        let X1 = last VADs; VADs1 = butlast VADs;
            X2 = last VADs1; VADs2 = butlast VADs1;
            S_X1 = map fst X1; S_X2 = map fst X2;
            P_X1 = map snd X1; P_X2 = map snd X2
        in if X1 = [] \<or> X2 = [] then (Inl IndexError, VADs2)
           else
             (case arange (hd S_X1 + hd S_X2) (last S_X1 + last S_X2 + delta) delta of
                Inl e \<Rightarrow> (Inl e, VADs2)
              | Inr S_Z \<Rightarrow>
                 (case vstack_T S_Z (convolve P_X1 P_X2) of
                    Inl e \<Rightarrow> (Inl e, VADs2)
                  | Inr par_Z_PZ \<Rightarrow> somaVADs_conv (VADs2 @ [par_Z_PZ]) 1)))"
  by pat_completeness auto
termination
  by (relation "measure (\<lambda>(VADs, delta). length VADs)")
     (simp_all add: Let_def Suc_lessI less_Suc_eq_le flip: length_greater_0_conv)

text \<open>The merge of the two popped distributions inside \<open>somaVADs_conv\<close>, named so that
  statements about one step can refer to it.\<close>

definition conv_merge :: "dist \<Rightarrow> dist \<Rightarrow> real \<Rightarrow> error + dist" where
  "conv_merge X1 X2 delta =
     (if X1 = [] \<or> X2 = [] then Inl IndexError
      else
        case arange (hd (map fst X1) + hd (map fst X2))
                    (last (map fst X1) + last (map fst X2) + delta) delta of
          Inl e \<Rightarrow> Inl e
        | Inr S_Z \<Rightarrow> vstack_T S_Z (convolve (map snd X1) (map snd X2)))"

section \<open>somaVADs_FFT\<close>

text \<open>\<open>np.dot(reps, xs)\<close>.\<close>

definition dot :: "int list \<Rightarrow> real list \<Rightarrow> real" where
  "dot reps xs = sum_list (map2 (\<lambda>r x. real_of_int r * x) reps xs)"

text \<open>\<open>[f(nested) for nested in VADs]\<close> where \<open>f\<close> may raise: the first exception
  ends the comprehension.\<close>

fun map_err :: "('a \<Rightarrow> error + 'b) \<Rightarrow> 'a list \<Rightarrow> error + 'b list" where
  "map_err f [] = Inr []"
| "map_err f (x # xs) =
     (case f x of
        Inl e \<Rightarrow> Inl e
      | Inr y \<Rightarrow> (case map_err f xs of Inl e \<Rightarrow> Inl e | Inr ys \<Rightarrow> Inr (y # ys)))"

text \<open>\<open>np.fft.fft(VAD[:,1], n) ** rep\<close>: the transform, each entry raised to the
  (integer) power \<open>rep\<close>. A negative power of a zero entry is an infinity in numpy and
  0 here; the statements below about values have \<open>rep \<ge> 0\<close>.\<close>

definition fft_pow :: "nat \<Rightarrow> dist \<times> int \<Rightarrow> error + complex list" where
  "fft_pow n nested =
     (case fft (map snd (fst nested)) n of
        Inl e \<Rightarrow> Inl e
      | Inr sp \<Rightarrow> Inr (map (\<lambda>z. power_int z (snd nested)) sp))"

text \<open>\<open>np.prod(TFs, axis=0)\<close> for a non-empty list of arrays of \<open>n\<close> entries each.\<close>

definition prod_axis0 :: "nat \<Rightarrow> complex list list \<Rightarrow> complex list" where
  "prod_axis0 n TFs = foldr (map2 (*)) TFs (replicate n 1)"

text \<open>
  The function only reads its argument; the caller's list is returned as it was.
  \<open>nested[0][0,0]\<close> and \<open>nested[0][-1,0]\<close> raise on an array without rows. For an empty
  list \<open>np.prod\<close> yields the scalar \<open>1.0\<close>, which \<open>np.fft.ifft\<close> refuses to index.
\<close>

definition somaVADs_FFT ::
    "(dist \<times> int) list \<Rightarrow> real \<Rightarrow> (error + dist) \<times> (dist \<times> int) list" where
  "somaVADs_FFT VADs delta =
     (if list_ex (\<lambda>nested. fst nested = []) VADs then (Inl IndexError, VADs)
      else
        let reps = map snd VADs;
            mins = map (\<lambda>nested. fst (hd (fst nested))) VADs;
            maxs = map (\<lambda>nested. fst (last (fst nested))) VADs;
            SZ_min = dot reps mins;
            SZ_max = dot reps maxs
        in case arange SZ_min (SZ_max + delta) delta of
             Inl e \<Rightarrow> (Inl e, VADs)
           | Inr S_Z \<Rightarrow>
              (case map_err (fft_pow (length S_Z)) VADs of
                 Inl e \<Rightarrow> (Inl e, VADs)
               | Inr TFs \<Rightarrow>
                  if TFs = [] then (Inl IndexError, VADs)
                  else
                    let TF = prod_axis0 (length S_Z) TFs;
                        VAD_Z = map Re (ifft TF)
                    in (Inr (zip S_Z VAD_Z), VADs)))"

section \<open>somaVADs_hib\<close>

text \<open>The branch \<open>rep > 1\<close> of the loop: the distribution of the sum of \<open>rep\<close>
  copies of \<open>VAD\<close>.\<close>

definition nova_VAD :: "dist \<Rightarrow> int \<Rightarrow> real \<Rightarrow> error + dist" where
  "nova_VAD VAD rep delta =
     (if VAD = [] then Inl IndexError
      else
        case arange (real_of_int rep * fst (hd VAD))
                    (real_of_int rep * fst (last VAD) + delta) delta of
          Inl e \<Rightarrow> Inl e
        | Inr S_Z \<Rightarrow>
           (case fft (map snd VAD) (length S_Z) of
              Inl e \<Rightarrow> Inl e
            | Inr sp \<Rightarrow>
               let FMP_final = map Re (ifft (map (\<lambda>z. power_int z rep) sp))
               in Inr (zip S_Z FMP_final)))"

text \<open>The loop over the input, threading the fresh local list \<open>dif_VADs\<close>.\<close>

fun hib_loop :: "(dist \<times> int) list \<Rightarrow> real \<Rightarrow> dist list \<Rightarrow> error + dist list" where
  "hib_loop [] delta dif_VADs = Inr dif_VADs"
| "hib_loop ((VAD, rep) # rest) delta dif_VADs =
     (if rep = 1 then hib_loop rest delta (dif_VADs @ [VAD])
      else if rep > 1 then
        (case nova_VAD VAD rep delta of
           Inl e \<Rightarrow> Inl e
         | Inr Z \<Rightarrow> hib_loop rest delta (dif_VADs @ [Z]))
      else Inl DomainError)"

text \<open>
  The final call of the source is \<open>somaVADs_conv(dif_VADs)\<close>: \<open>delta\<close> is not passed,
  so the reduction runs with the default \<open>delta = 1\<close>. The list it consumes is
  \<open>dif_VADs\<close>, not the caller's, whose contents are returned as they were.
\<close>

definition somaVADs_hib ::
    "(dist \<times> int) list \<Rightarrow> real \<Rightarrow> (error + dist) \<times> (dist \<times> int) list" where
  "somaVADs_hib VADs delta =
     (case hib_loop VADs delta [] of
        Inl e \<Rightarrow> (Inl e, VADs)
      | Inr dif_VADs \<Rightarrow> (fst (somaVADs_conv dif_VADs 1), VADs))"

section \<open>The precondition of the grid-based functions\<close>

text \<open>A distribution sorted ascending with uniform spacing \<open>delta\<close>: it has a first row,
  and row \<open>i\<close> holds the value of the first row plus \<open>i * delta\<close>.\<close>

definition on_grid :: "real \<Rightarrow> dist \<Rightarrow> bool" where
  "on_grid delta D \<longleftrightarrow>
     D \<noteq> [] \<and> map fst D = map (\<lambda>i. fst (hd D) + real i * delta) [0..<length D]"

section \<open>The distribution a list of rows stands for\<close>

text \<open>
  The mass that the rows of \<open>D\<close> give to the value \<open>x\<close> (a value may stand in several
  rows), and the relation between two arrays that stand for the same distribution: the
  same values, each with the same mass. These are not functions of the source; the
  properties of its results are stated with them.
\<close>

definition mass :: "dist \<Rightarrow> real \<Rightarrow> real" where
  "mass D x = sum_list (map snd (filter (\<lambda>r. fst r = x) D))"

definition same_pmf :: "dist \<Rightarrow> dist \<Rightarrow> bool" where
  "same_pmf D E \<longleftrightarrow> set (map fst D) = set (map fst E) \<and> mass D = mass E"

text \<open>The distribution of the sum of independent variables with the distributions
  \<open>VADs\<close>: one row for every choice of one row in each of them, holding the sum of the values
  and the product of the probabilities.\<close>

definition sum_pmf :: "dist list \<Rightarrow> dist" where
  "sum_pmf VADs = foldr (\<lambda>X acc. outer_pairs acc X) VADs [(0, 1)]"

section \<open>Cyclic convolution\<close>

text \<open>
  The product of transforms is the transform of a cyclic convolution. These functions
  are not in the source: they state what \<open>ifft\<close> of a product of \<open>fft\<close>s is, so that
  \<open>somaVADs_FFT\<close> can be evaluated. \<open>cyc n f g\<close> is the cyclic convolution of two sequences
  of \<open>n\<close> points, \<open>impulse\<close> its unit, and \<open>cyc_all n VADs\<close> the cyclic convolution of the
  padded probability columns of \<open>VADs\<close>, each taken as often as its repetition count says.
\<close>

definition cyc :: "nat \<Rightarrow> (nat \<Rightarrow> 'a) \<Rightarrow> (nat \<Rightarrow> 'a) \<Rightarrow> nat \<Rightarrow> 'a :: comm_ring_1" where
  "cyc n f g k = (\<Sum>m<n. f m * g ((k + n - m) mod n))"

definition impulse :: "nat \<Rightarrow> real" where
  "impulse k = (if k = 0 then 1 else 0)"

fun cyc_all :: "nat \<Rightarrow> (dist \<times> int) list \<Rightarrow> nat \<Rightarrow> real" where
  "cyc_all n [] = impulse"
| "cyc_all n (nested # rest) =
     ((cyc n (\<lambda>m. pad_to n (map snd (fst nested)) ! m)) ^^ nat (snd nested)) (cyc_all n rest)"

text \<open>Both reducers are unfolded step by step in the proofs below.\<close>

declare somaVADs_biv.simps [simp del] somaVADs_conv.simps [simp del]

section \<open>One step of each reducer\<close>

lemma biv_single: "somaVADs_biv [D] = (Inr (sort_key fst D), [D])"
  by (simp add: somaVADs_biv.simps)

lemma conv_single: "somaVADs_conv [D] delta = (Inr D, [D])"
  by (simp add: somaVADs_conv.simps)

lemma biv_empty: "somaVADs_biv [] = (Inl IndexError, [])"
  by (simp add: somaVADs_biv.simps)

lemma conv_empty: "somaVADs_conv [] delta = (Inl IndexError, [])"
  by (simp add: somaVADs_conv.simps)

lemma biv_step:
  "2 \<le> length VADs \<Longrightarrow>
   somaVADs_biv VADs =
     somaVADs_biv (butlast (butlast VADs) @ [biv_merge (last VADs) (last (butlast VADs))])"
  by (subst somaVADs_biv.simps) (auto simp: Let_def)

lemma conv_step:
  assumes "2 \<le> length VADs"
  shows "somaVADs_conv VADs delta =
     (case conv_merge (last VADs) (last (butlast VADs)) delta of
        Inl e \<Rightarrow> (Inl e, butlast (butlast VADs))
      | Inr Z \<Rightarrow> somaVADs_conv (butlast (butlast VADs) @ [Z]) 1)"
proof -
  from assms have "length VADs \<noteq> 1" "VADs \<noteq> []" by auto
  then show ?thesis
    by (subst somaVADs_conv.simps) (simp add: Let_def conv_merge_def split: sum.splits)
qed

lemma biv_two:
  "somaVADs_biv [X2, X1] = (Inr (sort_key fst (biv_merge X1 X2)), [biv_merge X1 X2])"
  by (simp add: biv_step biv_single)

lemma conv_two:
  "somaVADs_conv [X2, X1] delta =
     (case conv_merge X1 X2 delta of Inl e \<Rightarrow> (Inl e, []) | Inr Z \<Rightarrow> (Inr Z, [Z]))"
  by (simp add: conv_step conv_single split: sum.splits)

text \<open>Case analysis and induction on a worklist: empty, one element, or at least two
  (where a step leaves a shorter list).\<close>

lemma length_cases [case_names empty single many]:
  "(xs = [] \<Longrightarrow> P) \<Longrightarrow> (\<And>x. xs = [x] \<Longrightarrow> P) \<Longrightarrow> (2 \<le> length xs \<Longrightarrow> P) \<Longrightarrow> P"
  by (cases xs; cases "tl xs"; auto)

lemma worklist_induct [case_names empty single step]:
  assumes "P []" and "\<And>x. P [x]"
    and "\<And>xs. 2 \<le> length xs \<Longrightarrow> (\<And>ys. length ys < length xs \<Longrightarrow> P ys) \<Longrightarrow> P xs"
  shows "P xs"
proof (induction xs rule: length_induct)
  case (1 xs)
  show ?case
  proof (cases xs rule: length_cases)
    case empty
    then show ?thesis using assms(1) by simp
  next
    case (single x)
    then show ?thesis using assms(2) by simp
  next
    case many
    then show ?thesis using assms(3) 1 by blast
  qed
qed

lemma shorter: "2 \<le> length xs \<Longrightarrow> length (butlast (butlast xs) @ [W]) < length xs"
  by simp

text \<open>Two fair coins with faces 1 and 2, used as the concrete input of the examples.\<close>

lemma coins_biv:
  "biv_merge [(1, 1/2), (2, 1/2)] [(1, 1/2), (2, 1/2)] = [(2, 1/4), (3, 1/2), (4, 1/4)]"
  by (simp add: biv_merge_def outer_pairs_def)

lemma coins_conv:
  "conv_merge [(1, 1/2), (2, 1/2)] [(1, 1/2), (2, 1/2)] 1 = Inr [(2, 1/4), (3, 1/2), (4, 1/4)]"
  by (simp add: conv_merge_def arange_def vstack_T_def convolve_def eval_nat_numeral
      lessThan_Suc upt_rec [of 0])

section \<open>A single distribution\<close>


section \<open>The worklist after the call\<close>

lemma biv_returns:
  "VADs \<noteq> [] \<Longrightarrow> \<exists>W. somaVADs_biv VADs = (Inr (sort_key fst W), [W])"
proof (induction VADs rule: worklist_induct)
  case empty
  then show ?case by simp
next
  case (single x)
  show ?case by (simp add: biv_single)
next
  case (step xs)
  let ?ys = "butlast (butlast xs) @ [biv_merge (last xs) (last (butlast xs))]"
  have "\<exists>W. somaVADs_biv ?ys = (Inr (sort_key fst W), [W])"
    by (rule step.IH [OF shorter [OF step.hyps]]) simp
  then show ?case using step.hyps by (simp add: biv_step)
qed

lemma conv_returns:
  "fst (somaVADs_conv VADs delta) = Inr Z \<Longrightarrow> snd (somaVADs_conv VADs delta) = [Z]"
proof (induction VADs arbitrary: delta rule: worklist_induct)
  case empty
  then show ?case by (simp add: conv_empty)
next
  case (single x)
  then show ?case by (simp add: conv_single)
next
  case (step xs)
  show ?case
  proof (cases "conv_merge (last xs) (last (butlast xs)) delta")
    case (Inl e)
    with step.prems show ?thesis by (simp add: conv_step [OF step.hyps])
  next
    case (Inr W)
    then have "somaVADs_conv xs delta = somaVADs_conv (butlast (butlast xs) @ [W]) 1"
      by (simp add: conv_step [OF step.hyps])
    then show ?thesis using step.prems step.IH [OF shorter [OF step.hyps]] by simp
  qed
qed

text \<open>
  Claim C8. Called on a worklist of \<open>n \<ge> 1\<close> distributions, \<open>somaVADs_biv\<close> returns and
  leaves exactly one element \<open>W\<close> in the caller's list (its result is \<open>W\<close> sorted by value);
  whenever \<open>somaVADs_conv\<close> returns a distribution, the caller's list holds exactly that
  distribution and nothing else. For \<open>n = 1\<close> the list is left as it was. The list is the
  only object either function writes to.
\<close>

theorem worklist_consumed:
  assumes "VADs \<noteq> []"
  shows "(\<exists>W. somaVADs_biv VADs = (Inr (sort_key fst W), [W]))
   \<and> (length VADs = 1 \<longrightarrow> snd (somaVADs_biv VADs) = VADs)
   \<and> (\<forall>Z. fst (somaVADs_conv VADs delta) = Inr Z \<longrightarrow> snd (somaVADs_conv VADs delta) = [Z])
   \<and> (length VADs = 1 \<longrightarrow> somaVADs_conv VADs delta = (Inr (hd VADs), VADs))"
proof (cases VADs rule: length_cases)
  case empty
  with assms show ?thesis by simp
next
  case (single x)
  then show ?thesis by (simp add: biv_single conv_single)
next
  case many
  then show ?thesis using biv_returns [OF assms] conv_returns [of VADs delta] by auto
qed

theorem worklist_consumed_witness:
  "[[(1, 1/2), (2, 1/2)], [(1, 1/2), (2, 1/2)]] \<noteq> ([] :: dist list)
   \<and> snd (somaVADs_biv [[(1, 1/2), (2, 1/2)], [(1, 1/2), (2, 1/2)]])
       = [[(2, 1/4), (3, 1/2), (4, 1/4)]]
   \<and> somaVADs_conv [[(1, 1/2), (2, 1/2)], [(1, 1/2), (2, 1/2)]] 1
       = (Inr [(2, 1/4), (3, 1/2), (4, 1/4)], [[(2, 1/4), (3, 1/2), (4, 1/4)]])"
  using worklist_consumed [of "[[(1, 1/2), (2, 1/2)], [(1, 1/2), (2, 1/2)]]" 1]
  by (simp add: biv_two conv_two coins_biv coins_conv)

section \<open>Aggregation in the dictionary\<close>

lemma keys_dict_add:
  "map fst (dict_add P_Z soma prob) =
     (if soma \<in> fst ` set P_Z then map fst P_Z else map fst P_Z @ [soma])"
  by (induction P_Z soma prob rule: dict_add.induct) auto

lemma distinct_dict_add:
  "distinct (map fst P_Z) \<Longrightarrow> distinct (map fst (dict_add P_Z soma prob))"
  by (simp add: keys_dict_add)


lemma distinct_fold_dict_add:
  "distinct (map fst P_Z) \<Longrightarrow>
   distinct (map fst (fold (\<lambda>(soma, prob) P_Z. dict_add P_Z soma prob) ps P_Z))"
  by (induction ps arbitrary: P_Z) (auto simp: distinct_dict_add)


lemma distinct_biv_merge: "distinct (map fst (biv_merge X1 X2))"
  by (simp add: biv_merge_def distinct_fold_dict_add)







section \<open>The mass of a convolution\<close>





lemma length_convolve: "length (convolve a v) = length a + length v - 1"
  by (simp add: convolve_def)


section \<open>Strictly increasing values and normalization\<close>




lemma last_two_mem:
  assumes "2 \<le> length xs"
  shows "last xs \<in> set xs" and "last (butlast xs) \<in> set xs"
proof -
  from assms have "xs \<noteq> []" by auto
  then show "last xs \<in> set xs" by simp
  from assms have "length (butlast xs) \<noteq> 0" by simp
  then have "butlast xs \<noteq> []" by blast
  then have "last (butlast xs) \<in> set (butlast xs)" by simp
  then show "last (butlast xs) \<in> set xs" by (rule in_set_butlastD)
qed



section \<open>Errors and effects of somaVADs_FFT and somaVADs_hib\<close>

text \<open>
  Claim C10. Neither \<open>somaVADs_FFT\<close> nor \<open>somaVADs_hib\<close> changes the caller's list: after the
  call, normal or not, it has the elements it had before (the list that the final
  reduction of \<open>somaVADs_hib\<close> consumes is the local \<open>dif_VADs\<close>).
\<close>

theorem inputs_untouched:
  "snd (somaVADs_FFT VADs delta) = VADs \<and> snd (somaVADs_hib VADs delta) = VADs"
  by (simp add: somaVADs_FFT_def somaVADs_hib_def Let_def split: sum.splits)









section \<open>Distributions as masses of values\<close>

lemma mass_Nil [simp]: "mass [] x = 0"
  by (simp add: mass_def)

lemma mass_Cons: "mass (r # D) x = (if fst r = x then snd r else 0) + mass D x"
  by (simp add: mass_def)

lemma mass_append: "mass (D @ E) x = mass D x + mass E x"
  by (simp add: mass_def)

lemma mass_outside: "x \<notin> set (map fst D) \<Longrightarrow> mass D x = 0"
  by (induction D) (auto simp: mass_Cons)

lemma mass_distinct: "distinct (map fst D) \<Longrightarrow> (k, v) \<in> set D \<Longrightarrow> mass D k = v"
proof (induction D)
  case Nil
  then show ?case by simp
next
  case (Cons r D)
  show ?case
  proof (cases "r = (k, v)")
    case True
    then have "k \<notin> set (map fst D)" using Cons.prems(1) by auto
    then show ?thesis using True by (simp add: mass_Cons mass_outside)
  next
    case False
    then have "(k, v) \<in> set D" using Cons.prems(2) by simp
    moreover from this have "k \<in> fst ` set D" by force
    then have "fst r \<noteq> k" using Cons.prems(1) by auto
    ultimately show ?thesis using Cons by (simp add: mass_Cons)
  qed
qed

lemma same_pmf_refl [simp]: "same_pmf D D"
  by (simp add: same_pmf_def)

lemma same_pmf_sym: "same_pmf D E \<Longrightarrow> same_pmf E D"
  by (simp add: same_pmf_def)

lemma same_pmf_trans: "same_pmf D E \<Longrightarrow> same_pmf E F \<Longrightarrow> same_pmf D F"
  by (simp add: same_pmf_def)

text \<open>The dictionary keeps the values and the masses of the pairs it is filled with.\<close>

lemma mass_dict_add:
  "mass (dict_add P_Z soma prob) x = mass P_Z x + (if soma = x then prob else 0)"
  by (induction P_Z soma prob rule: dict_add.induct) (auto simp: mass_Cons)

lemma keys_set_dict_add:
  "fst ` set (dict_add P_Z soma prob) = insert soma (fst ` set P_Z)"
  using arg_cong [OF keys_dict_add [of P_Z soma prob], of set] by (auto split: if_splits)

lemma mass_fold_dict_add:
  "mass (fold (\<lambda>(soma, prob) P_Z. dict_add P_Z soma prob) ps P_Z) x = mass P_Z x + mass ps x"
  by (induction ps arbitrary: P_Z) (auto simp: mass_dict_add mass_Cons)

lemma keys_fold_dict_add:
  "fst ` set (fold (\<lambda>(soma, prob) P_Z. dict_add P_Z soma prob) ps P_Z)
     = fst ` set P_Z \<union> fst ` set ps"
  by (induction ps arbitrary: P_Z) (simp_all add: keys_set_dict_add split_beta)

lemma biv_merge_outer: "same_pmf (biv_merge X1 X2) (outer_pairs X1 X2)"
  unfolding same_pmf_def biv_merge_def
  by (simp add: mass_fold_dict_add keys_fold_dict_add fun_eq_iff)

text \<open>Sums over the rows, grouped by value.\<close>

lemma sum_rows_grouped:
  assumes "finite K" and "set (map fst D) \<subseteq> K"
  shows "sum_list (map (\<lambda>r. h (fst r) * snd r) D) = (\<Sum>a\<in>K. h a * mass D a)"
  using assms(2)
proof (induction D)
  case Nil
  then show ?case by simp
next
  case (Cons r D)
  then have "fst r \<in> K" and IH: "sum_list (map (\<lambda>r. h (fst r) * snd r) D) = (\<Sum>a\<in>K. h a * mass D a)"
    by simp_all
  have "(\<Sum>a\<in>K. h a * mass (r # D) a)
        = (\<Sum>a\<in>K. h a * (if fst r = a then snd r else 0)) + (\<Sum>a\<in>K. h a * mass D a)"
    by (simp add: mass_Cons distrib_left sum.distrib)
  also have "(\<Sum>a\<in>K. h a * (if fst r = a then snd r else 0)) = h (fst r) * snd r"
  proof -
    have "(\<Sum>a\<in>K. h a * (if fst r = a then snd r else 0))
          = (\<Sum>a\<in>K. if a = fst r then h a * snd r else 0)"
      by (rule sum.cong) auto
    then show ?thesis using assms(1) \<open>fst r \<in> K\<close> by simp
  qed
  finally show ?case using IH by simp
qed

lemma outer_pairs_Nil [simp]: "outer_pairs [] X2 = []"
  by (simp add: outer_pairs_def)

lemma outer_pairs_Cons:
  "outer_pairs (r # X1) X2 = map (\<lambda>s. (fst r + fst s, snd r * snd s)) X2 @ outer_pairs X1 X2"
  by (simp add: outer_pairs_def split_beta)

lemma outer_pairs_append:
  "outer_pairs (X1 @ Y1) X2 = outer_pairs X1 X2 @ outer_pairs Y1 X2"
  by (simp add: outer_pairs_def)

lemma set_outer_pairs:
  "set (outer_pairs X1 X2) = (\<lambda>(r, s). (fst r + fst s, snd r * snd s)) ` (set X1 \<times> set X2)"
  by (induction X1) (auto simp: outer_pairs_Cons)

lemma keys_outer_pairs:
  "fst ` set (outer_pairs X1 X2) = (\<lambda>(a, b). a + b) ` (fst ` set X1 \<times> fst ` set X2)"
proof -
  have "fst ` set (outer_pairs X1 X2) = (\<lambda>(r, s). fst r + fst s) ` (set X1 \<times> set X2)"
    by (simp add: set_outer_pairs image_image split_beta)
  also have "\<dots> = (\<lambda>(a, b). a + b) ` ((\<lambda>(r, s). (fst r, fst s)) ` (set X1 \<times> set X2))"
    by (simp add: image_image split_beta)
  also have "(\<lambda>(r, s). (fst r, fst s)) ` (set X1 \<times> set X2) = fst ` set X1 \<times> fst ` set X2"
    by (rule image_paired_Times)
  finally show ?thesis .
qed

lemma mass_row:
  "mass (map (\<lambda>s. (a + fst s, p * snd s)) X2) z
     = p * sum_list (map (\<lambda>s. (if a + fst s = z then 1 else 0) * snd s) X2)"
  by (induction X2) (auto simp: mass_Cons algebra_simps)

lemma mass_outer_pairs_rows:
  "mass (outer_pairs X1 X2) z
     = sum_list (map (\<lambda>r. sum_list (map (\<lambda>s. (if fst r + fst s = z then 1 else 0) * snd s) X2)
                            * snd r) X1)"
  by (induction X1) (simp_all add: outer_pairs_Cons mass_append mass_row mult.commute)

lemma mass_outer_pairs:
  "mass (outer_pairs X1 X2) z
     = (\<Sum>a\<in>fst ` set X1. \<Sum>b\<in>fst ` set X2.
          (if a + b = z then 1 else 0) * (mass X1 a * mass X2 b))"
proof -
  have inner: "sum_list (map (\<lambda>s. (if a + fst s = z then 1 else 0) * snd s) X2)
        = (\<Sum>b\<in>fst ` set X2. (if a + b = z then 1 else 0) * mass X2 b)" for a
    by (rule sum_rows_grouped [where h = "\<lambda>b. if a + b = z then 1 else 0"]) simp_all
  have "mass (outer_pairs X1 X2) z
        = sum_list (map (\<lambda>r. (\<Sum>b\<in>fst ` set X2. (if fst r + b = z then 1 else 0) * mass X2 b)
                               * snd r) X1)"
    by (simp only: mass_outer_pairs_rows inner)
  also have "\<dots> = (\<Sum>a\<in>fst ` set X1.
        (\<Sum>b\<in>fst ` set X2. (if a + b = z then 1 else 0) * mass X2 b) * mass X1 a)"
    by (rule sum_rows_grouped) simp_all
  also have "\<dots> = (\<Sum>a\<in>fst ` set X1. \<Sum>b\<in>fst ` set X2.
        (if a + b = z then 1 else 0) * (mass X1 a * mass X2 b))"
    by (intro sum.cong refl) (simp add: sum_distrib_left sum_distrib_right mult_ac)
  finally show ?thesis .
qed

lemma outer_pairs_cong:
  assumes "same_pmf X1 Y1" and "same_pmf X2 Y2"
  shows "same_pmf (outer_pairs X1 X2) (outer_pairs Y1 Y2)"
  using assms unfolding same_pmf_def
  by (simp add: keys_outer_pairs mass_outer_pairs fun_eq_iff)

lemma outer_pairs_commute: "same_pmf (outer_pairs X1 X2) (outer_pairs X2 X1)"
proof -
  have "(\<lambda>(a, b). a + b) ` (fst ` set X1 \<times> fst ` set X2)
        = (\<lambda>(a, b). a + b) ` (fst ` set X2 \<times> fst ` set X1)" (is "?A = ?B")
  proof (intro set_eqI iffI)
    fix z assume "z \<in> ?A"
    then obtain a b where "z = a + b" "a \<in> fst ` set X1" "b \<in> fst ` set X2" by auto
    then have "z = (\<lambda>(a, b). a + b) (b, a)" "(b, a) \<in> fst ` set X2 \<times> fst ` set X1" by auto
    then show "z \<in> ?B" by (rule image_eqI)
  next
    fix z assume "z \<in> ?B"
    then obtain a b where "z = a + b" "a \<in> fst ` set X2" "b \<in> fst ` set X1" by auto
    then have "z = (\<lambda>(a, b). a + b) (b, a)" "(b, a) \<in> fst ` set X1 \<times> fst ` set X2" by auto
    then show "z \<in> ?A" by (rule image_eqI)
  qed
  then have "fst ` set (outer_pairs X1 X2) = fst ` set (outer_pairs X2 X1)"
    by (simp only: keys_outer_pairs)
  moreover have "mass (outer_pairs X1 X2) z = mass (outer_pairs X2 X1) z" for z
    unfolding mass_outer_pairs
    by (subst sum.swap) (intro sum.cong refl, simp add: add.commute mult.commute)
  ultimately show ?thesis by (simp add: same_pmf_def fun_eq_iff)
qed

lemma outer_pairs_map:
  "outer_pairs (map (\<lambda>s. (a + fst s, p * snd s)) X2) X3
     = map (\<lambda>t. (a + fst t, p * snd t)) (outer_pairs X2 X3)"
  by (induction X2) (simp_all add: outer_pairs_Cons algebra_simps)

lemma outer_pairs_assoc:
  "outer_pairs (outer_pairs X1 X2) X3 = outer_pairs X1 (outer_pairs X2 X3)"
  by (induction X1) (simp_all add: outer_pairs_Cons outer_pairs_append outer_pairs_map)

lemma outer_pairs_unit: "outer_pairs [(0, 1)] D = D"
  by (simp add: outer_pairs_Cons)

section \<open>The distribution of the sum\<close>

lemma sum_pmf_snoc: "sum_pmf (Ds @ [D]) = foldr (\<lambda>X acc. outer_pairs acc X) Ds D"
  by (simp add: sum_pmf_def outer_pairs_unit)

lemma foldr_outer_cong:
  "same_pmf A B \<Longrightarrow>
   same_pmf (foldr (\<lambda>X acc. outer_pairs acc X) Ds A) (foldr (\<lambda>X acc. outer_pairs acc X) Ds B)"
  by (induction Ds) (simp_all add: outer_pairs_cong)

lemma sum_pmf_Cons_cong:
  "same_pmf (sum_pmf xs) (sum_pmf ys) \<Longrightarrow> same_pmf (sum_pmf (x # xs)) (sum_pmf (x # ys))"
  by (simp add: sum_pmf_def outer_pairs_cong)

lemma outer_pairs_swap:
  "same_pmf (outer_pairs (outer_pairs A X) Y) (outer_pairs (outer_pairs A Y) X)"
proof -
  have "same_pmf (outer_pairs A (outer_pairs X Y)) (outer_pairs A (outer_pairs Y X))"
    by (intro outer_pairs_cong same_pmf_refl outer_pairs_commute)
  then show ?thesis by (simp only: outer_pairs_assoc)
qed

lemma sum_pmf_move:
  "same_pmf (sum_pmf (ys @ x # zs)) (sum_pmf (x # ys @ zs))"
proof (induction ys)
  case Nil
  show ?case by simp
next
  case (Cons y ys)
  have "same_pmf (sum_pmf (y # ys @ x # zs)) (sum_pmf (y # x # ys @ zs))"
    using Cons by (rule sum_pmf_Cons_cong)
  moreover have "same_pmf (sum_pmf (y # x # ys @ zs)) (sum_pmf (x # y # ys @ zs))"
    by (simp add: sum_pmf_def outer_pairs_swap)
  ultimately show ?case by (simp add: same_pmf_trans)
qed

lemma sum_pmf_permuted:
  "mset xs = mset ys \<Longrightarrow> same_pmf (sum_pmf xs) (sum_pmf ys)"
proof (induction xs arbitrary: ys)
  case Nil
  then show ?case by simp
next
  case (Cons x xs)
  then have "x \<in> set ys" by (metis list.set_intros(1) mset_eq_setD)
  then obtain ys1 ys2 where ys: "ys = ys1 @ x # ys2" by (auto simp: in_set_conv_decomp)
  with Cons.prems have "mset xs = mset (ys1 @ ys2)" by simp
  then have "same_pmf (sum_pmf xs) (sum_pmf (ys1 @ ys2))" by (rule Cons.IH)
  then have "same_pmf (sum_pmf (x # xs)) (sum_pmf (x # ys1 @ ys2))"
    by (rule sum_pmf_Cons_cong)
  moreover have "same_pmf (sum_pmf (x # ys1 @ ys2)) (sum_pmf ys)"
    unfolding ys by (rule same_pmf_sym [OF sum_pmf_move])
  ultimately show ?case by (rule same_pmf_trans)
qed

lemma snoc2:
  assumes "2 \<le> length xs"
  shows "xs = butlast (butlast xs) @ [last (butlast xs), last xs]"
proof -
  from assms have "xs \<noteq> []" by auto
  moreover from assms have "length (butlast xs) \<noteq> 0" by simp
  then have "butlast xs \<noteq> []" by blast
  ultimately have "xs = butlast xs @ [last xs]"
    and "butlast xs = butlast (butlast xs) @ [last (butlast xs)]" by simp_all
  then show ?thesis by (metis append.assoc append_Cons append_Nil)
qed

lemma biv_sum_pmf:
  "VADs \<noteq> [] \<Longrightarrow>
   \<exists>W. somaVADs_biv VADs = (Inr (sort_key fst W), [W]) \<and> same_pmf W (sum_pmf VADs)
       \<and> (2 \<le> length VADs \<longrightarrow> distinct (map fst W))"
proof (induction VADs rule: worklist_induct)
  case empty
  then show ?case by simp
next
  case (single x)
  have "sum_pmf [x] = x" using sum_pmf_snoc [of "[]" x] by simp
  then show ?case by (simp add: biv_single)
next
  case (step xs)
  let ?ys = "butlast (butlast xs)" and ?X1 = "last xs" and ?X2 = "last (butlast xs)"
  let ?zs = "?ys @ [biv_merge ?X1 ?X2]"
  have xs: "xs = (?ys @ [?X2]) @ [?X1]" using snoc2 [OF step.hyps] by simp
  obtain W where W: "somaVADs_biv ?zs = (Inr (sort_key fst W), [W])"
      "same_pmf W (sum_pmf ?zs)" "2 \<le> length ?zs \<longrightarrow> distinct (map fst W)"
    using step.IH [OF shorter [OF step.hyps], of "biv_merge ?X1 ?X2"] by auto
  have "same_pmf (sum_pmf ?zs) (foldr (\<lambda>X acc. outer_pairs acc X) ?ys (outer_pairs ?X1 ?X2))"
    unfolding sum_pmf_snoc by (rule foldr_outer_cong [OF biv_merge_outer])
  also have eq: "foldr (\<lambda>X acc. outer_pairs acc X) ?ys (outer_pairs ?X1 ?X2) = sum_pmf xs"
    by (subst (2) xs, subst sum_pmf_snoc) simp
  finally have "same_pmf (sum_pmf ?zs) (sum_pmf xs)" .
  with W(2) have pmf: "same_pmf W (sum_pmf xs)" by (rule same_pmf_trans)
  have "distinct (map fst W)"
  proof (cases "?ys = []")
    case True
    then have "somaVADs_biv ?zs = (Inr (sort_key fst (biv_merge ?X1 ?X2)), [biv_merge ?X1 ?X2])"
      by (simp add: biv_single)
    with W(1) have "W = biv_merge ?X1 ?X2" by simp
    then show ?thesis by (simp add: distinct_biv_merge)
  next
    case False
    then have "2 \<le> length ?zs" by (cases ?ys) simp_all
    with W(3) show ?thesis by simp
  qed
  with W(1) pmf show ?case by (simp add: biv_step [OF step.hyps])
qed

text \<open>Rows with distinct values are fixed, up to their order, by the values and masses.\<close>

lemma same_pmf_set:
  assumes "distinct (map fst W)" and "distinct (map fst W')" and "same_pmf W W'"
  shows "set W = set W'"
proof -
  have sub: "set A \<subseteq> set B"
    if "distinct (map fst A)" "distinct (map fst B)" "same_pmf A B" for A B :: dist
  proof
    fix r assume r: "r \<in> set A"
    obtain k v where kv: "r = (k, v)" by (cases r)
    with r that(1) have "mass A k = v" by (simp add: mass_distinct)
    then have m: "mass B k = v" using that(3) by (simp add: same_pmf_def)
    from r kv have "k \<in> fst ` set A" by force
    then have "k \<in> fst ` set B" using that(3) by (simp add: same_pmf_def)
    then obtain v' where v': "(k, v') \<in> set B" by auto
    with that(2) have "mass B k = v'" by (simp add: mass_distinct)
    with m v' kv show "r \<in> set B" by simp
  qed
  show ?thesis
    using sub [OF assms] sub [OF assms(2,1) same_pmf_sym [OF assms(3)]] by blast
qed

lemma sort_key_canonical:
  assumes "distinct (map fst W)" and "distinct (map fst W')" and "same_pmf W W'"
  shows "sort_key fst W = sort_key fst (W' :: dist)"
proof (rule properties_for_sort_key)
  have dW: "distinct W" and dW': "distinct W'"
    using assms(1,2) by (auto simp: distinct_map)
  have set_eq: "set W = set W'" by (rule same_pmf_set [OF assms])
  show "mset (sort_key fst W') = mset W"
    using dW dW' set_eq by (simp add: set_eq_iff_mset_eq_distinct)
  show "sorted (map fst (sort_key fst W'))" by simp
  fix k assume "k \<in> set (sort_key fst W')"
  then have k: "k \<in> set W'" "k \<in> set W" using set_eq by simp_all
  have one: "filter (\<lambda>x. fst k = fst x) A = [k]"
    if "distinct (map fst A)" "k \<in> set A" for A :: dist
    using that
  proof (induction A)
    case Nil
    then show ?case by simp
  next
    case (Cons a A)
    show ?case
    proof (cases "a = k")
      case True
      then have "fst k \<notin> fst ` set A" using Cons.prems(1) by auto
      then have "filter (\<lambda>x. fst k = fst x) A = []"
        by (force simp: filter_empty_conv)
      with True show ?thesis by simp
    next
      case False
      then have "k \<in> set A" using Cons.prems(2) by simp
      then have "fst k \<in> fst ` set A" by (rule imageI)
      moreover have "fst a \<notin> fst ` set A" using Cons.prems(1) by simp
      ultimately have "fst a \<noteq> fst k" by metis
      then show ?thesis using Cons \<open>k \<in> set A\<close> by simp
    qed
  qed
  have "distinct (map fst (sort_key fst W'))"
    using assms(2) by (metis distinct_map distinct_sort inj_on_cong mset_sort set_mset_mset set_sort)
  then have "filter (\<lambda>x. fst k = fst x) (sort_key fst W') = [k]"
    using k(1) by (intro one) simp_all
  moreover have "filter (\<lambda>x. fst k = fst x) W = [k]"
    using assms(1) k(2) by (rule one)
  ultimately show "filter (\<lambda>x. fst k = fst x) (sort_key fst W') = filter (\<lambda>x. fst k = fst x) W"
    by simp
qed

lemma biv_order_independent:
  assumes "mset VADs = mset VADs'"
  shows "fst (somaVADs_biv VADs) = fst (somaVADs_biv VADs')"
proof (cases VADs rule: length_cases)
  case empty
  with assms show ?thesis by simp
next
  case (single x)
  with assms have "VADs' = [x]" by (metis mset_single_iff_right mset.simps(1) mset.simps(2) mset_zero_iff add_mset_eq_single)
  with single show ?thesis by simp
next
  case many
  have len: "length VADs' = length VADs" using assms by (metis size_mset)
  with many have many': "2 \<le> length VADs'" by simp
  from many many' have ne: "VADs \<noteq> []" "VADs' \<noteq> []" by auto
  obtain W where W: "somaVADs_biv VADs = (Inr (sort_key fst W), [W])"
      "same_pmf W (sum_pmf VADs)" "distinct (map fst W)"
    using biv_sum_pmf [OF ne(1)] many by auto
  obtain W' where W': "somaVADs_biv VADs' = (Inr (sort_key fst W'), [W'])"
      "same_pmf W' (sum_pmf VADs')" "distinct (map fst W')"
    using biv_sum_pmf [OF ne(2)] many' by auto
  have "same_pmf W W'"
    using W(2) sum_pmf_permuted [OF assms] same_pmf_sym [OF W'(2)]
    by (blast intro: same_pmf_trans)
  then have "sort_key fst W = sort_key fst W'"
    by (rule sort_key_canonical [OF W(3) W'(3)])
  with W(1) W'(1) show ?thesis by simp
qed

section \<open>One merge on the grid\<close>

lemma on_grid_last:
  assumes "on_grid delta D"
  shows "last (map fst D) = fst (hd D) + real (length D - 1) * delta"
proof -
  from assms have ne: "D \<noteq> []" and eq: "map fst D = map (\<lambda>i. fst (hd D) + real i * delta) [0..<length D]"
    by (simp_all add: on_grid_def)
  have "last (map fst D) = map fst D ! (length D - 1)"
    using ne by (simp add: last_conv_nth)
  also have "\<dots> = map (\<lambda>i. fst (hd D) + real i * delta) [0..<length D] ! (length D - 1)"
    by (simp only: eq [symmetric])
  also have "\<dots> = fst (hd D) + real (length D - 1) * delta"
    using ne by simp
  finally show ?thesis .
qed

lemma arange_grid:
  assumes "0 < delta"
  shows "arange lo (lo + real k * delta + delta) delta
         = Inr (map (\<lambda>i. lo + real i * delta) [0..<Suc k])"
proof -
  have "(lo + real k * delta + delta - lo) / delta = real (Suc k)"
    using assms by (simp add: field_simps)
  then have "nat \<lceil>(lo + real k * delta + delta - lo) / delta\<rceil> = Suc k"
    by (simp only: ceiling_of_nat nat_int)
  then show ?thesis using assms by (simp only: arange_def) simp
qed

lemma conv_merge_on_grid:
  assumes "0 < delta" and "on_grid delta X1" and "on_grid delta X2"
  shows "conv_merge X1 X2 delta
         = Inr (zip (map (\<lambda>i. fst (hd X1) + fst (hd X2) + real i * delta)
                       [0..<length X1 + length X2 - 1])
                    (convolve (map snd X1) (map snd X2)))"
proof -
  from assms have ne: "X1 \<noteq> []" "X2 \<noteq> []" by (simp_all add: on_grid_def)
  let ?lo = "fst (hd X1) + fst (hd X2)"
  let ?k = "length X1 + length X2 - 2"
  have k: "Suc ?k = length X1 + length X2 - 1"
    using ne by (cases X1; cases X2; simp)
  have r: "real (length X1 - 1) + real (length X2 - 1) = real ?k"
    using ne by (cases X1; cases X2; simp)
  have "last (map fst X1) + last (map fst X2)
        = ?lo + (real (length X1 - 1) + real (length X2 - 1)) * delta"
    by (simp add: on_grid_last [OF assms(2)] on_grid_last [OF assms(3)] algebra_simps)
  then have hi: "last (map fst X1) + last (map fst X2) = ?lo + real ?k * delta"
    by (simp only: r)
  have lo: "hd (map fst X1) + hd (map fst X2) = ?lo"
    using ne by (simp add: hd_map)
  have "arange (hd (map fst X1) + hd (map fst X2))
               (last (map fst X1) + last (map fst X2) + delta) delta
        = Inr (map (\<lambda>i. ?lo + real i * delta) [0..<length X1 + length X2 - 1])"
    by (simp only: lo hi arange_grid [OF assms(1)] k)
  then show ?thesis
    using ne by (simp add: conv_merge_def vstack_T_def convolve_def)
qed

lemma on_grid_conv_merge:
  assumes "0 < delta" and "on_grid delta X1" and "on_grid delta X2"
  shows "\<exists>Z. conv_merge X1 X2 delta = Inr Z \<and> on_grid delta Z
             \<and> length Z = length X1 + length X2 - 1
             \<and> fst (hd Z) = fst (hd X1) + fst (hd X2)
             \<and> fst (last Z) = fst (last X1) + fst (last X2)
             \<and> map snd Z = convolve (map snd X1) (map snd X2)"
proof -
  from assms have ne: "X1 \<noteq> []" "X2 \<noteq> []" by (simp_all add: on_grid_def)
  let ?n = "length X1 + length X2 - 1"
  let ?S = "map (\<lambda>i. fst (hd X1) + fst (hd X2) + real i * delta) [0..<?n]"
  let ?Z = "zip ?S (convolve (map snd X1) (map snd X2))"
  have n: "0 < ?n" using ne by (cases X1; simp)
  have len: "length (convolve (map snd X1) (map snd X2)) = ?n"
    by (simp add: convolve_def)
  have fstZ: "map fst ?Z = ?S" and sndZ: "map snd ?Z = convolve (map snd X1) (map snd X2)"
    using len by simp_all
  have lenZ: "length ?Z = ?n" using len by simp
  have Zne: "?Z \<noteq> []" using n lenZ by auto
  have "hd (map fst ?Z) = hd ?S" by (simp only: fstZ)
  then have hdZ: "fst (hd ?Z) = fst (hd X1) + fst (hd X2)"
    using n Zne by (simp add: hd_map hd_conv_nth del: map_fst_zip)
  have grid: "on_grid delta ?Z"
    unfolding on_grid_def using Zne fstZ hdZ lenZ by simp
  have r: "real (length X1 - 1) + real (length X2 - 1) = real (?n - 1)"
    using ne by (cases X1; cases X2; simp)
  have "last (map fst X1) + last (map fst X2)
        = fst (hd X1) + fst (hd X2) + (real (length X1 - 1) + real (length X2 - 1)) * delta"
    by (simp add: on_grid_last [OF assms(2)] on_grid_last [OF assms(3)] algebra_simps)
  also have "\<dots> = fst (hd ?Z) + real (length ?Z - 1) * delta"
    by (simp only: r hdZ lenZ)
  also have "\<dots> = last (map fst ?Z)"
    by (simp only: on_grid_last [OF grid])
  finally have "last (map fst ?Z) = last (map fst X1) + last (map fst X2)" ..
  then have lastZ: "fst (last ?Z) = fst (last X1) + fst (last X2)"
    using ne Zne by (simp add: last_map del: map_fst_zip)
  show ?thesis
    using conv_merge_on_grid [OF assms] grid lenZ hdZ lastZ sndZ by blast
qed

section \<open>The convolution of two distributions on one grid\<close>

lemma on_grid_nth:
  assumes "on_grid delta D" and "i < length D"
  shows "fst (D ! i) = fst (hd D) + real i * delta"
proof -
  from assms(1) have "map fst D = map (\<lambda>i. fst (hd D) + real i * delta) [0..<length D]"
    by (simp add: on_grid_def)
  then have "map fst D ! i = map (\<lambda>i. fst (hd D) + real i * delta) [0..<length D] ! i"
    by simp
  then show ?thesis using assms(2) by simp
qed

lemma on_grid_strict:
  assumes "0 < delta" and "on_grid delta D"
  shows "sorted_wrt (<) (map fst D)"
proof -
  have "sorted_wrt (\<lambda>i j. fst (hd D) + real i * delta < fst (hd D) + real j * delta) [0..<length D]"
    by (rule sorted_wrt_mono_rel [OF _ sorted_wrt_upt]) (use assms(1) in simp)
  then have "sorted_wrt (<) (map (\<lambda>i. fst (hd D) + real i * delta) [0..<length D])"
    by (simp only: sorted_wrt_map)
  then show ?thesis using assms(2) by (simp add: on_grid_def)
qed

lemma sum_list_rows: "sum_list (map F D) = (\<Sum>i<length D. F (D ! i))" for F :: "'a \<Rightarrow> real"
proof -
  have "sum_list (map F D) = (\<Sum>i<length (map F D). map F D ! i)"
    by (simp only: sum_list_sum_nth atLeast0LessThan)
  then show ?thesis by simp
qed

lemma mass_outer_on_grid:
  assumes "delta \<noteq> 0" and "on_grid delta X1" and "on_grid delta X2"
    and "k < length X1 + length X2 - 1"
  shows "mass (outer_pairs X1 X2) (fst (hd X1) + fst (hd X2) + real k * delta)
         = convolve (map snd X1) (map snd X2) ! k"
proof -
  let ?z = "fst (hd X1) + fst (hd X2) + real k * delta"
  have cond: "fst (X1 ! i) + fst (X2 ! j) = ?z \<longleftrightarrow> i + j = k"
    if "i < length X1" "j < length X2" for i j
  proof -
    have "fst (X1 ! i) + fst (X2 ! j) = fst (hd X1) + fst (hd X2) + real (i + j) * delta"
      by (simp add: on_grid_nth [OF assms(2) that(1)] on_grid_nth [OF assms(3) that(2)]
          algebra_simps)
    moreover have "real (i + j) * delta = real k * delta \<longleftrightarrow> i + j = k"
      using assms(1) by (simp only: mult_cancel_right of_nat_eq_iff) simp
    ultimately show ?thesis by simp
  qed
  have inner: "(\<Sum>j<length X2. (if fst (X1 ! i) + fst (X2 ! j) = ?z then 1 else 0) * snd (X2 ! j))
        = (if i \<le> k \<and> k - i < length X2 then snd (X2 ! (k - i)) else 0)"
    if "i < length X1" for i
  proof -
    have "(\<Sum>j<length X2. (if fst (X1 ! i) + fst (X2 ! j) = ?z then 1 else 0) * snd (X2 ! j))
          = (\<Sum>j<length X2. if j = k - i \<and> i \<le> k then snd (X2 ! j) else 0)"
      by (rule sum.cong [OF refl]) (use cond [OF that] in auto)
    also have "\<dots> = (if i \<le> k \<and> k - i < length X2 then snd (X2 ! (k - i)) else 0)"
      by (cases "i \<le> k") (simp_all add: sum.delta)
    finally show ?thesis .
  qed
  have "mass (outer_pairs X1 X2) ?z
        = (\<Sum>i<length X1. (\<Sum>j<length X2.
              (if fst (X1 ! i) + fst (X2 ! j) = ?z then 1 else 0) * snd (X2 ! j)) * snd (X1 ! i))"
    by (simp only: mass_outer_pairs_rows sum_list_rows)
  also have "\<dots> = (\<Sum>i<length X1.
        if i \<le> k \<and> k - i < length X2 then snd (X1 ! i) * snd (X2 ! (k - i)) else 0)"
    by (rule sum.cong [OF refl]) (simp add: inner)
  also have "\<dots> = convolve (map snd X1) (map snd X2) ! k"
  proof -
    have "convolve (map snd X1) (map snd X2) ! k
          = (\<Sum>m<length X1. if m \<le> k \<and> k - m < length X2
                               then map snd X1 ! m * map snd X2 ! (k - m) else 0)"
      using assms(4) by (simp add: convolve_def cong: if_cong)
    also have "\<dots> = (\<Sum>i<length X1.
        if i \<le> k \<and> k - i < length X2 then snd (X1 ! i) * snd (X2 ! (k - i)) else 0)"
      by (rule sum.cong [OF refl]) simp
    finally show ?thesis by simp
  qed
  finally show ?thesis .
qed

lemma on_grid_keys:
  assumes "on_grid delta D"
  shows "fst ` set D = (\<lambda>i. fst (hd D) + real i * delta) ` {..<length D}"
proof -
  have "fst ` set D = set (map fst D)" by simp
  also have "\<dots> = set (map (\<lambda>i. fst (hd D) + real i * delta) [0..<length D])"
    using assms by (simp only: on_grid_def)
  also have "\<dots> = (\<lambda>i. fst (hd D) + real i * delta) ` {..<length D}"
    by (simp add: atLeast0LessThan)
  finally show ?thesis .
qed

lemma conv_merge_same_pmf:
  assumes "0 < delta" and "on_grid delta X1" and "on_grid delta X2"
    and "conv_merge X1 X2 delta = Inr Z"
  shows "same_pmf Z (outer_pairs X1 X2)"
proof -
  let ?lo = "fst (hd X1) + fst (hd X2)" and ?N = "length X1 + length X2 - 1"
  from assms(2,3) have ne: "X1 \<noteq> []" "X2 \<noteq> []" by (simp_all add: on_grid_def)
  have Z: "on_grid delta Z" "length Z = ?N" "fst (hd Z) = ?lo"
      "map snd Z = convolve (map snd X1) (map snd X2)"
    using on_grid_conv_merge [OF assms(1-3)] assms(4) by auto
  have keysZ: "fst ` set Z = (\<lambda>k. ?lo + real k * delta) ` {..<?N}"
    using on_grid_keys [OF Z(1)] by (simp only: Z(2,3))
  have keysO: "fst ` set (outer_pairs X1 X2) = (\<lambda>k. ?lo + real k * delta) ` {..<?N}"
    (is "?A = ?B")
  proof (intro set_eqI iffI)
    fix z assume "z \<in> ?A"
    then obtain a b where "z = a + b" "a \<in> fst ` set X1" "b \<in> fst ` set X2"
      by (auto simp: keys_outer_pairs)
    then obtain i j where ij: "i < length X1" "j < length X2"
        "z = (fst (hd X1) + real i * delta) + (fst (hd X2) + real j * delta)"
      by (auto simp: on_grid_keys [OF assms(2)] on_grid_keys [OF assms(3)])
    then have "z = ?lo + real (i + j) * delta" by (simp add: algebra_simps)
    moreover have "i + j < ?N" using ij(1,2) by linarith
    ultimately show "z \<in> ?B" by blast
  next
    fix z assume "z \<in> ?B"
    then obtain k where k: "k < ?N" "z = ?lo + real k * delta" by auto
    define i where "i = min k (length X1 - 1)"
    define j where "j = k - i"
    have pos: "0 < length X1" "0 < length X2" using ne by simp_all
    have i: "i < length X1" using pos unfolding i_def by linarith
    have j: "j < length X2" using k(1) pos unfolding j_def i_def by linarith
    have "i + j = k" by (simp add: i_def j_def)
    then have "real k = real i + real j" by simp
    then have "z = (fst (hd X1) + real i * delta) + (fst (hd X2) + real j * delta)"
      by (simp add: k(2) algebra_simps)
    moreover have "fst (hd X1) + real i * delta \<in> fst ` set X1"
      using i by (auto simp: on_grid_keys [OF assms(2)])
    moreover have "fst (hd X2) + real j * delta \<in> fst ` set X2"
      using j by (auto simp: on_grid_keys [OF assms(3)])
    ultimately show "z \<in> ?A" by (auto simp: keys_outer_pairs)
  qed
  have dist: "distinct (map fst Z)"
    using on_grid_strict [OF assms(1) Z(1)] by (simp add: strict_sorted_iff)
  have "mass Z z = mass (outer_pairs X1 X2) z" for z
  proof (cases "z \<in> (\<lambda>k. ?lo + real k * delta) ` {..<?N}")
    case True
    then obtain k where k: "k < ?N" "z = ?lo + real k * delta" by auto
    have "Z ! k \<in> set Z" using k(1) Z(2) by simp
    moreover have "fst (Z ! k) = z"
      using on_grid_nth [OF Z(1), of k] k Z(2,3) by simp
    ultimately have "(z, snd (Z ! k)) \<in> set Z" by (metis prod.collapse)
    then have "mass Z z = snd (Z ! k)" using dist by (rule mass_distinct [rotated])
    also have "\<dots> = map snd Z ! k" using k(1) Z(2) by simp
    also have "\<dots> = mass (outer_pairs X1 X2) z"
      using mass_outer_on_grid [OF _ assms(2,3) k(1)] assms(1) by (simp add: Z(4) k(2))
    finally show ?thesis .
  next
    case False
    then show ?thesis
      using keysZ keysO by (simp add: mass_outside)
  qed
  then show ?thesis
    by (simp add: same_pmf_def keysZ keysO fun_eq_iff)
qed

section \<open>somaVADs_conv with the grid spacing it keeps\<close>

lemma conv_unit_grid:
  "VADs \<noteq> [] \<Longrightarrow> \<forall>D\<in>set VADs. on_grid 1 D \<Longrightarrow>
   \<exists>Z. fst (somaVADs_conv VADs 1) = Inr Z \<and> on_grid 1 Z \<and> same_pmf Z (sum_pmf VADs)"
proof (induction VADs rule: worklist_induct)
  case empty
  then show ?case by simp
next
  case (single x)
  have "sum_pmf [x] = x" using sum_pmf_snoc [of "[]" x] by simp
  with single show ?case by (simp add: conv_single)
next
  case (step xs)
  let ?ys = "butlast (butlast xs)" and ?X1 = "last xs" and ?X2 = "last (butlast xs)"
  have xs: "xs = (?ys @ [?X2]) @ [?X1]" using snoc2 [OF step.hyps] by simp
  have grid: "on_grid 1 ?X1" "on_grid 1 ?X2"
    using step.prems(2) last_two_mem [OF step.hyps] by simp_all
  obtain W where W: "conv_merge ?X1 ?X2 1 = Inr W" "on_grid 1 W"
    using on_grid_conv_merge [OF _ grid] by auto
  have pmfW: "same_pmf W (outer_pairs ?X1 ?X2)"
    by (rule conv_merge_same_pmf [OF _ grid W(1)]) simp
  have "\<forall>D\<in>set (?ys @ [W]). on_grid 1 D"
    using step.prems(2) W(2) by (auto dest: in_set_butlastD)
  then obtain Z where Z: "fst (somaVADs_conv (?ys @ [W]) 1) = Inr Z" "on_grid 1 Z"
      "same_pmf Z (sum_pmf (?ys @ [W]))"
    using step.IH [OF shorter [OF step.hyps], of W] by auto
  have "same_pmf (sum_pmf (?ys @ [W])) (foldr (\<lambda>X acc. outer_pairs acc X) ?ys (outer_pairs ?X1 ?X2))"
    unfolding sum_pmf_snoc by (rule foldr_outer_cong [OF pmfW])
  also have "foldr (\<lambda>X acc. outer_pairs acc X) ?ys (outer_pairs ?X1 ?X2) = sum_pmf xs"
    by (subst (2) xs, subst sum_pmf_snoc) simp
  finally have "same_pmf Z (sum_pmf xs)" using Z(3) by (blast intro: same_pmf_trans)
  with Z(1,2) W(1) show ?case by (simp add: conv_step [OF step.hyps])
qed

lemma conv_two_grid:
  assumes "0 < delta" and "on_grid delta X1" and "on_grid delta X2"
  shows "\<exists>Z. fst (somaVADs_conv [X2, X1] delta) = Inr Z \<and> on_grid delta Z
             \<and> same_pmf Z (sum_pmf [X2, X1])"
proof -
  obtain W where W: "conv_merge X1 X2 delta = Inr W" "on_grid delta W"
    using on_grid_conv_merge [OF assms] by auto
  have "same_pmf W (outer_pairs X1 X2)"
    by (rule conv_merge_same_pmf [OF assms W(1)])
  moreover have "sum_pmf [X2, X1] = outer_pairs X1 X2"
    using sum_pmf_snoc [of "[X2]" X1] by simp
  ultimately show ?thesis using W by (simp add: conv_two)
qed

lemma conv_grid:
  assumes "0 < delta" and "VADs \<noteq> []" and "\<forall>D\<in>set VADs. on_grid delta D"
    and "delta = 1 \<or> length VADs \<le> 2"
  shows "\<exists>Z. fst (somaVADs_conv VADs delta) = Inr Z \<and> on_grid delta Z
             \<and> same_pmf Z (sum_pmf VADs)"
proof (cases "delta = 1")
  case True
  with assms(2,3) show ?thesis using conv_unit_grid [of VADs] by simp
next
  case False
  with assms(4) have "length VADs \<le> 2" by simp
  with assms(2) consider x where "VADs = [x]" | x y where "VADs = [x, y]"
    by (cases VADs; cases "tl VADs"; cases "tl (tl VADs)") auto
  then show ?thesis
  proof cases
    case 1
    have "sum_pmf [x] = x" using sum_pmf_snoc [of "[]" x] by simp
    with 1 assms(3) show ?thesis by (simp add: conv_single)
  next
    case 2
    with assms(3) show ?thesis using conv_two_grid [OF assms(1), of y x] by simp
  qed
qed

text \<open>With \<open>delta = 1\<close>, or with at most two distributions, \<open>somaVADs_conv\<close> and
  \<open>somaVADs_biv\<close> return the same array on inputs of the grid.\<close>

lemma conv_eq_biv:
  assumes "0 < delta" and "VADs \<noteq> []" and "\<forall>D\<in>set VADs. on_grid delta D"
    and "delta = 1 \<or> length VADs \<le> 2"
  shows "fst (somaVADs_conv VADs delta) = fst (somaVADs_biv VADs)"
proof -
  obtain Z where Z: "fst (somaVADs_conv VADs delta) = Inr Z" "on_grid delta Z"
      "same_pmf Z (sum_pmf VADs)"
    using conv_grid [OF assms] by auto
  obtain W where W: "somaVADs_biv VADs = (Inr (sort_key fst W), [W])"
      "same_pmf W (sum_pmf VADs)" "2 \<le> length VADs \<longrightarrow> distinct (map fst W)"
    using biv_sum_pmf [OF assms(2)] by auto
  have strictZ: "sorted_wrt (<) (map fst Z)" by (rule on_grid_strict [OF assms(1) Z(2)])
  then have sortedZ: "sort_key fst Z = Z"
    by (intro sort_key_id_if_sorted strict_sorted_imp_sorted)
  have "sort_key fst W = Z"
  proof (cases VADs rule: length_cases)
    case empty
    with assms(2) show ?thesis by simp
  next
    case (single x)
    with W(1) Z(1) have "W = x" "Z = x" by (simp_all add: biv_single conv_single)
    with sortedZ show ?thesis by simp
  next
    case many
    with W(3) have "distinct (map fst W)" by simp
    moreover have "distinct (map fst Z)" using strictZ by (simp add: strict_sorted_iff)
    moreover have "same_pmf W Z"
      using W(2) same_pmf_sym [OF Z(3)] by (rule same_pmf_trans)
    ultimately have "sort_key fst W = sort_key fst Z" by (rule sort_key_canonical)
    with sortedZ show ?thesis by simp
  qed
  with W(1) Z(1) show ?thesis by simp
qed

lemma conv_order_independent_kept:
  assumes "0 < delta" and "VADs \<noteq> []" and "\<forall>D\<in>set VADs. on_grid delta D"
    and "delta = 1 \<or> length VADs \<le> 2" and "mset VADs = mset VADs'"
  shows "fst (somaVADs_conv VADs delta) = fst (somaVADs_conv VADs' delta)"
proof -
  have set_eq: "set VADs' = set VADs" using assms(5) by (metis mset_eq_setD)
  have len: "length VADs' = length VADs" using assms(5) by (metis size_mset)
  have ne: "VADs' \<noteq> []" using assms(2) len by auto
  have "fst (somaVADs_conv VADs delta) = fst (somaVADs_biv VADs)"
    by (rule conv_eq_biv [OF assms(1-4)])
  also have "\<dots> = fst (somaVADs_biv VADs')"
    by (rule biv_order_independent [OF assms(5)])
  also have "\<dots> = fst (somaVADs_conv VADs' delta)"
    using conv_eq_biv [OF assms(1) ne] assms(3,4) set_eq len by simp
  finally show ?thesis .
qed

section \<open>Normalization\<close>



section \<open>The grid spacing after the first merge\<close>

text \<open>Evaluation of the reducers on concrete worklists.\<close>

lemmas conv_eval = conv_step conv_single conv_merge_def arange_def vstack_T_def convolve_def
  eval_nat_numeral lessThan_Suc upt_rec [of 0]

lemmas biv_eval = biv_step biv_single biv_merge_def outer_pairs_def

text \<open>
  Claim C2. One merge of \<open>somaVADs_conv\<close> gives the axis from the sum of the minima to the
  sum of the maxima stepped by \<open>delta\<close>, with the full convolution of the probabilities, so
  that the final result is the distribution of the sum. The first merge does
  (\<open>on_grid_conv_merge\<close>; first conjunct below, \<open>delta = 3/4\<close>), and the final result is
  the distribution of the sum when \<open>delta = 1\<close> or the worklist has at most two elements
  (\<open>conv_grid\<close>). But the recursive call does not pass \<open>delta\<close> on: with three
  distributions on the grid of spacing \<open>3/4\<close> the result has the values 3, 4, 5, 6 where the
  sums are 3, 15/4, 9/2, 21/4 (as \<open>somaVADs_biv\<close> finds them); on the grid of spacing 2 the
  second merge raises, its axis and its probabilities having different lengths.
\<close>

theorem conv_later_steps_ignore_delta:
  "conv_merge [(1, 1/2), (7/4, 1/2)] [(1, 1/2), (7/4, 1/2)] (3/4)
     = Inr [(2, 1/4), (11/4, 1/2), (7/2, 1/4)]
   \<and> fst (somaVADs_conv [[(1, 1/2), (7/4, 1/2)], [(1, 1/2), (7/4, 1/2)], [(1, 1/2), (7/4, 1/2)]] (3/4))
     = Inr [(3, 1/8), (4, 3/8), (5, 3/8), (6, 1/8)]
   \<and> fst (somaVADs_biv [[(1, 1/2), (7/4, 1/2)], [(1, 1/2), (7/4, 1/2)], [(1, 1/2), (7/4, 1/2)]])
     = Inr [(3, 1/8), (15/4, 3/8), (9/2, 3/8), (21/4, 1/8)]
   \<and> somaVADs_conv [[(0, 1/2), (2, 1/2)], [(0, 1/2), (2, 1/2)], [(0, 1/2), (2, 1/2)]] 2
     = (Inl ShapeError, [])"
  by (simp add: conv_eval biv_eval)

text \<open>
  Claim C3. On grid-aligned inputs \<open>somaVADs_biv\<close> and \<open>somaVADs_conv\<close> return the same
  distribution. They do when \<open>delta = 1\<close> or the worklist has at most two elements
  (\<open>conv_eq_biv\<close>). For three distributions on the grid of spacing \<open>3/4\<close> they do not:
  \<open>somaVADs_conv\<close>, called with \<open>delta = 3/4\<close>, returns the values 0, 1, 2, 3.
\<close>

theorem biv_conv_differ:
  "fst (somaVADs_biv [[(0, 1/2), (3/4, 1/2)], [(0, 1/2), (3/4, 1/2)], [(0, 1/2), (3/4, 1/2)]])
     = Inr [(0, 1/8), (3/4, 3/8), (3/2, 3/8), (9/4, 1/8)]
   \<and> fst (somaVADs_conv [[(0, 1/2), (3/4, 1/2)], [(0, 1/2), (3/4, 1/2)], [(0, 1/2), (3/4, 1/2)]] (3/4))
     = Inr [(0, 1/8), (1, 3/8), (2, 3/8), (3, 1/8)]"
  by (simp add: conv_eval biv_eval)

text \<open>
  Claim C7. The result does not depend on the order of the worklist. That holds for
  \<open>somaVADs_biv\<close> (\<open>biv_order_independent\<close>) and for \<open>somaVADs_conv\<close> with \<open>delta = 1\<close>
  (\<open>conv_order_independent_kept\<close>). For \<open>somaVADs_conv\<close> with \<open>delta = 3/4\<close> the order
  matters: with the four-point distribution first the call returns, with the four-point
  distribution second it raises.
\<close>

theorem conv_order_dependent:
  "fst (somaVADs_conv [[(0, 1/4), (3/4, 1/4), (3/2, 1/4), (9/4, 1/4)], [(0, 1/2), (3/4, 1/2)],
                       [(0, 1/2), (3/4, 1/2)], [(0, 1/2), (3/4, 1/2)]] (3/4))
     = Inr [(0, 1/32), (1, 1/8), (2, 7/32), (3, 1/4), (4, 7/32), (5, 1/8), (6, 1/32)]
   \<and> fst (somaVADs_conv [[(0, 1/2), (3/4, 1/2)], [(0, 1/4), (3/4, 1/4), (3/2, 1/4), (9/4, 1/4)],
                       [(0, 1/2), (3/4, 1/2)], [(0, 1/2), (3/4, 1/2)]] (3/4))
     = Inl ShapeError"
  by (simp add: conv_eval)

section \<open>The discrete Fourier transform\<close>

lemma cis_eq_1_imp:
  assumes "cis a = 1"
  shows "\<exists>j::int. a = of_int j * 2 * pi"
proof -
  from assms have "Re (cis a) = 1" by simp
  then have "cos a = 1" by simp
  then show ?thesis by (simp add: cos_one_2pi_int)
qed

lemma root_sum:
  assumes "0 < n"
  shows "(\<Sum>k<n. cis (2 * pi * of_int d * real k / real n))
         = (if int n dvd d then of_nat n else 0)"
proof -
  let ?a = "2 * pi * of_int d / real n"
  let ?z = "cis ?a"
  have pow: "cis (2 * pi * of_int d * real k / real n) = ?z ^ k" for k
    by (simp add: DeMoivre mult_ac)
  have zn: "?z ^ n = 1"
  proof -
    have "?z ^ n = cis (2 * pi * of_int d)"
      using assms by (simp add: DeMoivre)
    then show ?thesis by simp
  qed
  show ?thesis
  proof (cases "int n dvd d")
    case True
    then obtain q where "d = int n * q" ..
    then have "?a = 2 * pi * of_int q" using assms by simp
    then have "?z = 1" by simp
    then show ?thesis using True by (simp add: pow)
  next
    case False
    have "?z \<noteq> 1"
    proof
      assume "?z = 1"
      then obtain j :: int where "?a = of_int j * 2 * pi"
        using cis_eq_1_imp by blast
      then have "real_of_int d = real_of_int (j * int n)"
        using assms by (simp add: field_simps)
      then have "d = j * int n" by (simp only: of_int_eq_iff)
      with False show False by simp
    qed
    then have "(\<Sum>k<n. ?z ^ k) = (?z ^ n - 1) / (?z - 1)"
      by (rule geometric_sum)
    then show ?thesis using False by (simp add: pow zn)
  qed
qed

lemma idft_dft:
  assumes "j < n"
  shows "idft n (dft n f) j = f j"
proof -
  have n: "0 < n" using assms by simp
  define w where "w = (\<lambda>m k. cis (- (2 * pi * real m * real k / real n)))"
  define v where "v = (\<lambda>k. cis (2 * pi * real j * real k / real n))"
  define u where "u = (\<lambda>m k. cis (2 * pi * of_int (int j - int m) * real k / real n))"
  have wv: "w m k * v k = u m k" for m k
  proof -
    have "- (2 * pi * real m * real k / real n) + 2 * pi * real j * real k / real n
          = 2 * pi * of_int (int j - int m) * real k / real n"
      by (simp add: algebra_simps diff_divide_distrib)
    then show ?thesis by (simp only: w_def v_def u_def cis_mult)
  qed
  have usum: "(\<Sum>k<n. u m k) = (if m = j then of_nat n else 0)" if "m < n" for m
  proof -
    have "int n dvd int j - int m \<longleftrightarrow> m = j"
    proof
      assume d: "int n dvd int j - int m"
      have "\<bar>int j - int m\<bar> < int n" using that assms by linarith
      have "int j - int m = 0"
      proof (rule ccontr)
        assume "int j - int m \<noteq> 0"
        then have "\<bar>int n\<bar> \<le> \<bar>int j - int m\<bar>" using d by (rule dvd_imp_le_int)
        with \<open>\<bar>int j - int m\<bar> < int n\<close> show False by simp
      qed
      then show "m = j" by simp
    qed simp
    then show ?thesis unfolding u_def by (simp only: root_sum [OF n])
  qed
  have dft_w: "dft n f k = (\<Sum>m<n. f m * w m k)" for k
    by (simp only: dft_def w_def)
  have "(\<Sum>k<n. dft n f k * v k) = (\<Sum>k<n. \<Sum>m<n. f m * u m k)"
    by (simp only: dft_w sum_distrib_right mult.assoc wv)
  also have "\<dots> = (\<Sum>m<n. \<Sum>k<n. f m * u m k)"
    by (rule sum.swap)
  also have "\<dots> = (\<Sum>m<n. f m * (\<Sum>k<n. u m k))"
    by (simp only: sum_distrib_left)
  also have "\<dots> = (\<Sum>m<n. if m = j then f j * of_nat n else 0)"
    by (rule sum.cong [OF refl]) (simp add: usum)
  also have "\<dots> = f j * of_nat n"
    using assms by simp
  finally have "(\<Sum>k<n. dft n f k * v k) = f j * of_nat n" .
  then show ?thesis using n by (simp add: idft_def v_def)
qed

lemma sum_rotate1:
  fixes H :: "nat \<Rightarrow> 'a :: comm_monoid_add"
  assumes "0 < n"
  shows "(\<Sum>k<n. H (Suc k mod n)) = (\<Sum>k<n. H k)"
proof -
  obtain p where n: "n = Suc p" using assms by (cases n) auto
  have "(\<Sum>k<Suc p. H (Suc k mod Suc p)) = (\<Sum>k<p. H (Suc k mod Suc p)) + H (Suc p mod Suc p)"
    by simp
  also have "(\<Sum>k<p. H (Suc k mod Suc p)) = (\<Sum>k<p. H (Suc k))"
    by (rule sum.cong) auto
  also have "H (Suc p mod Suc p) = H 0" by simp
  also have "(\<Sum>k<p. H (Suc k)) + H 0 = (\<Sum>k<Suc p. H k)"
    by (subst sum.lessThan_Suc_shift) (rule add.commute)
  finally show ?thesis by (simp only: n)
qed

lemma sum_rotate:
  fixes h :: "nat \<Rightarrow> 'a :: comm_monoid_add"
  assumes "0 < n"
  shows "(\<Sum>k<n. h ((k + s) mod n)) = (\<Sum>k<n. h k)"
proof (induction s)
  case 0
  show ?case by (rule sum.cong) auto
next
  case (Suc s)
  have "(\<Sum>k<n. h ((k + Suc s) mod n)) = (\<Sum>k<n. h ((Suc k mod n + s) mod n))"
    by (rule sum.cong [OF refl]) (simp add: mod_add_left_eq)
  also have "\<dots> = (\<Sum>k<n. h ((k + s) mod n))"
    by (rule sum_rotate1 [OF assms, of "\<lambda>x. h ((x + s) mod n)"])
  finally show ?case using Suc by simp
qed

lemma cis_period:
  assumes "0 < n"
  shows "cis (- (2 * pi * real (a mod n) * real k / real n))
         = cis (- (2 * pi * real a * real k / real n))"
proof -
  have a: "real a = real (a div n) * real n + real (a mod n)"
    by (metis div_mult_mod_eq of_nat_add of_nat_mult)
  define B where "B = - (2 * pi * real (a mod n) * real k / real n)"
  define C where "C = 2 * pi * (- real (a div n * k))"
  have "- (2 * pi * real a * real k / real n) = B + C"
    unfolding B_def C_def using assms by (subst a) (simp add: field_simps)
  then have "cis (- (2 * pi * real a * real k / real n)) = cis B * cis C"
    by (simp only: cis_mult)
  moreover have "cis C = 1"
    unfolding C_def by (rule cis_multiple_2pi) simp
  ultimately show ?thesis by (simp add: B_def)
qed

lemma dft_cyc:
  assumes "0 < n"
  shows "dft n (cyc n f g) k = dft n f k * dft n g k"
proof -
  define c where "c = (\<lambda>a. cis (- (2 * pi * real a * real k / real n)))"
  have c_add: "c (a + b) = c a * c b" for a b
    by (simp add: c_def cis_mult add_divide_distrib algebra_simps)
  have c_mod: "c (a mod n) = c a" for a
    unfolding c_def by (rule cis_period [OF assms])
  have dft_c: "dft n F k = (\<Sum>m<n. F m * c m)" for F
    by (simp only: dft_def c_def)
  have inner: "(\<Sum>j<n. g ((j + n - m) mod n) * c j) = c m * (\<Sum>l<n. g l * c l)" if "m < n" for m
  proof -
    have "g ((j + n - m) mod n) * c j = c m * (g ((j + (n - m)) mod n) * c ((j + (n - m)) mod n))" for j
    proof -
      have "c m * c ((j + (n - m)) mod n) = c (m + (j + (n - m)))"
        by (simp only: c_add c_mod)
      also have "m + (j + (n - m)) = j + n" using that by simp
      also have "c (j + n) = c ((j + n) mod n)" by (simp only: c_mod)
      also have "\<dots> = c j" by (simp add: c_mod)
      finally have "c m * c ((j + (n - m)) mod n) = c j" .
      moreover have "j + n - m = j + (n - m)" using that by simp
      ultimately show ?thesis by (simp add: mult_ac)
    qed
    then have "(\<Sum>j<n. g ((j + n - m) mod n) * c j)
               = c m * (\<Sum>j<n. g ((j + (n - m)) mod n) * c ((j + (n - m)) mod n))"
      by (simp only: sum_distrib_left)
    also have "(\<Sum>j<n. g ((j + (n - m)) mod n) * c ((j + (n - m)) mod n)) = (\<Sum>l<n. g l * c l)"
      by (rule sum_rotate [OF assms, of "\<lambda>l. g l * c l"])
    finally show ?thesis .
  qed
  have "dft n (cyc n f g) k = (\<Sum>j<n. \<Sum>m<n. f m * (g ((j + n - m) mod n) * c j))"
    by (simp only: dft_c cyc_def sum_distrib_right mult.assoc)
  also have "\<dots> = (\<Sum>m<n. \<Sum>j<n. f m * (g ((j + n - m) mod n) * c j))"
    by (rule sum.swap)
  also have "\<dots> = (\<Sum>m<n. f m * (\<Sum>j<n. g ((j + n - m) mod n) * c j))"
    by (simp only: sum_distrib_left)
  also have "\<dots> = (\<Sum>m<n. f m * (c m * (\<Sum>l<n. g l * c l)))"
    by (rule sum.cong [OF refl]) (simp add: inner)
  also have "\<dots> = (\<Sum>m<n. f m * c m) * (\<Sum>l<n. g l * c l)"
    by (simp only: sum_distrib_right mult.assoc)
  finally show ?thesis by (simp only: dft_c)
qed

section \<open>The transforms of the source as cyclic convolutions\<close>

lemma dft_impulse: "0 < n \<Longrightarrow> dft n (\<lambda>m. complex_of_real (impulse m)) k = 1"
proof -
  assume "0 < n"
  have "dft n (\<lambda>m. complex_of_real (impulse m)) k
        = (\<Sum>m<n. if m = 0 then cis (- (2 * pi * real m * real k / real n)) else 0)"
    unfolding dft_def impulse_def by (rule sum.cong) auto
  also have "\<dots> = 1"
    using \<open>0 < n\<close> by (simp add: sum.delta)
  finally show ?thesis .
qed

lemma of_real_cyc:
  "complex_of_real (cyc n f g k) = cyc n (\<lambda>m. complex_of_real (f m)) (\<lambda>m. complex_of_real (g m)) k"
  by (simp add: cyc_def)

lemma dft_cyc_real:
  "0 < n \<Longrightarrow>
   dft n (\<lambda>m. complex_of_real (cyc n f g m)) k
     = dft n (\<lambda>m. complex_of_real (f m)) k * dft n (\<lambda>m. complex_of_real (g m)) k"
  by (simp only: of_real_cyc dft_cyc)

lemma dft_cyc_power:
  "0 < n \<Longrightarrow>
   dft n (\<lambda>m. complex_of_real (((cyc n f) ^^ r) g m)) k
     = dft n (\<lambda>m. complex_of_real (f m)) k ^ r * dft n (\<lambda>m. complex_of_real (g m)) k"
  by (induction r) (simp_all add: dft_cyc_real mult.assoc)

lemma ifft_dft:
  assumes "0 < n"
  shows "map Re (ifft (map (dft n (\<lambda>m. complex_of_real (g m))) [0..<n])) = map g [0..<n]"
proof -
  let ?G = "dft n (\<lambda>m. complex_of_real (g m))"
  have "idft n (\<lambda>k. map ?G [0..<n] ! k) j = idft n ?G j" for j
    unfolding idft_def by (intro arg_cong2 [where f = "(/)"] sum.cong refl) simp
  then have "ifft (map ?G [0..<n]) = map (idft n ?G) [0..<n]"
    by (simp add: ifft_def)
  also have "\<dots> = map (\<lambda>m. complex_of_real (g m)) [0..<n]"
    by (rule map_cong [OF refl]) (simp add: idft_dft)
  finally show ?thesis by (simp add: comp_def)
qed

lemma map2_upt: "map2 f (map g [0..<n]) (map h [0..<n]) = map (\<lambda>k. f (g k) (h k)) [0..<n]"
  by (induction n) (simp_all add: zip_append)

lemma replicate_upt: "replicate n c = map (\<lambda>k. c) [0..<n]"
  by (simp add: map_replicate_const)

lemma fft_pow_nonneg:
  "0 < n \<Longrightarrow> 0 \<le> snd nested \<Longrightarrow>
   fft_pow n nested =
     Inr (map (\<lambda>k. dft n (\<lambda>m. complex_of_real (pad_to n (map snd (fst nested)) ! m)) k
                      ^ nat (snd nested)) [0..<n])"
  by (simp add: fft_pow_def fft_def power_int_def comp_def)

lemma map_err_fft_pow:
  "0 < n \<Longrightarrow> \<forall>nested\<in>set VADs. 0 \<le> snd nested \<Longrightarrow>
   map_err (fft_pow n) VADs =
     Inr (map (\<lambda>nested. map (\<lambda>k. dft n (\<lambda>m. complex_of_real (pad_to n (map snd (fst nested)) ! m)) k
                                   ^ nat (snd nested)) [0..<n]) VADs)"
  by (induction VADs) (simp_all add: fft_pow_nonneg)

lemma prod_axis0_dft:
  "0 < n \<Longrightarrow>
   prod_axis0 n (map (\<lambda>nested. map (\<lambda>k. dft n (\<lambda>m. complex_of_real (pad_to n (map snd (fst nested)) ! m)) k
                                   ^ nat (snd nested)) [0..<n]) VADs)
     = map (dft n (\<lambda>m. complex_of_real (cyc_all n VADs m))) [0..<n]"
proof (induction VADs)
  case Nil
  then show ?case by (simp add: prod_axis0_def dft_impulse replicate_upt)
next
  case (Cons nested rest)
  then show ?case
    by (simp add: prod_axis0_def map2_upt dft_cyc_power)
qed

lemma FFT_cyclic:
  assumes "VADs \<noteq> []"
    and "\<forall>nested\<in>set VADs. fst nested \<noteq> [] \<and> 0 \<le> snd nested"
    and "arange (dot (map snd VADs) (map (\<lambda>nested. fst (hd (fst nested))) VADs))
                (dot (map snd VADs) (map (\<lambda>nested. fst (last (fst nested))) VADs) + delta) delta
         = Inr S_Z"
    and "S_Z \<noteq> []"
  shows "somaVADs_FFT VADs delta
         = (Inr (zip S_Z (map (cyc_all (length S_Z) VADs) [0..<length S_Z])), VADs)"
proof -
  let ?n = "length S_Z"
  have n: "0 < ?n" using assms(4) by simp
  have nonempty: "\<not> list_ex (\<lambda>nested. fst nested = []) VADs"
    using assms(2) by (simp add: list_ex_iff)
  have reps: "\<forall>nested\<in>set VADs. 0 \<le> snd nested"
    using assms(2) by simp
  show ?thesis
    using assms(1)
    by (simp add: somaVADs_FFT_def nonempty Let_def assms(3) map_err_fft_pow [OF n reps]
        prod_axis0_dft [OF n] ifft_dft [OF n])
qed

lemma nova_VAD_cyclic:
  assumes "VAD \<noteq> []" and "0 \<le> rep"
    and "arange (real_of_int rep * fst (hd VAD)) (real_of_int rep * fst (last VAD) + delta) delta
         = Inr S_Z"
    and "S_Z \<noteq> []"
  shows "nova_VAD VAD rep delta
         = Inr (zip S_Z (map (cyc_all (length S_Z) [(VAD, rep)]) [0..<length S_Z]))"
proof -
  let ?n = "length S_Z"
  have n: "0 < ?n" using assms(4) by simp
  let ?f = "\<lambda>m. pad_to ?n (map snd VAD) ! m"
  have eq: "map (\<lambda>z. z powi rep) (map (dft ?n (\<lambda>m. complex_of_real (?f m))) [0..<?n])
        = map (dft ?n (\<lambda>m. complex_of_real (((cyc ?n ?f) ^^ nat rep) impulse m))) [0..<?n]"
    using assms(2) by (simp add: power_int_def dft_cyc_power [OF n] dft_impulse [OF n])
  have "nova_VAD VAD rep delta
        = Inr (zip S_Z (map Re (ifft (map (\<lambda>z. z powi rep)
                 (map (dft ?n (\<lambda>m. complex_of_real (?f m))) [0..<?n])))))"
    using assms(1) n by (simp add: nova_VAD_def assms(3) fft_def Let_def del: map_map)
  also have "\<dots> = Inr (zip S_Z (map ((cyc ?n ?f ^^ nat rep) impulse) [0..<?n]))"
    by (simp only: eq ifft_dft [OF n])
  finally show ?thesis by simp
qed

lemma cyc_list: "cyc n f g k = sum_list (map (\<lambda>m. f m * g ((k + n - m) mod n)) [0..<n])"
  by (simp add: cyc_def interv_sum_list_conv_sum_set_nat atLeast0LessThan)

lemmas cyc_eval = cyc_list impulse_def pad_to_def upt_conv_Cons nth_Cons' nth_append

section \<open>somaVADs_hib against somaVADs_FFT\<close>

text \<open>
  Claim C1. \<open>somaVADs_hib\<close> returns what \<open>somaVADs_FFT\<close> returns, on an axis stepped by
  \<open>delta\<close>. Its final call of \<open>somaVADs_conv\<close> does not pass \<open>delta\<close>: for two
  distributions on the grid of spacing \<open>3/4\<close> the axis of its result is 0, 1, 2 where
  \<open>somaVADs_FFT\<close> has 0, 3/4, 3/2, and on the grid of spacing 2 it raises where
  \<open>somaVADs_FFT\<close> returns.
\<close>

theorem hib_ignores_delta:
  "fst (somaVADs_hib [([(0, 1/2), (3/4, 1/2)], 1), ([(0, 1/2), (3/4, 1/2)], 1)] (3/4))
     = Inr [(0, 1/4), (1, 1/2), (2, 1/4)]
   \<and> fst (somaVADs_FFT [([(0, 1/2), (3/4, 1/2)], 1), ([(0, 1/2), (3/4, 1/2)], 1)] (3/4))
     = Inr [(0, 1/4), (3/4, 1/2), (3/2, 1/4)]
   \<and> fst (somaVADs_hib [([(0, 1/2), (2, 1/2)], 1), ([(0, 1/2), (2, 1/2)], 1)] 2)
     = Inl ShapeError
   \<and> fst (somaVADs_FFT [([(0, 1/2), (2, 1/2)], 1), ([(0, 1/2), (2, 1/2)], 1)] 2)
     = Inr [(0, 1/4), (2, 1/2), (4, 1/4)]"
proof -
  have "fst (somaVADs_FFT [([(0, 1/2), (3/4, 1/2)], 1), ([(0, 1/2), (3/4, 1/2)], 1)] (3/4))
        = Inr [(0, 1/4), (3/4, 1/2), (3/2, 1/4)]"
    by (subst FFT_cyclic [where S_Z = "[0, 3/4, 3/2]"])
       (simp_all add: dot_def arange_def cyc_eval)
  moreover have "fst (somaVADs_FFT [([(0, 1/2), (2, 1/2)], 1), ([(0, 1/2), (2, 1/2)], 1)] 2)
        = Inr [(0, 1/4), (2, 1/2), (4, 1/4)]"
    by (subst FFT_cyclic [where S_Z = "[0, 2, 4]"])
       (simp_all add: dot_def arange_def cyc_eval)
  ultimately show ?thesis
    by (simp add: somaVADs_hib_def conv_eval)
qed

text \<open>With a repetition count above 1 and \<open>delta = 1\<close> the two agree, here on two throws of a
  coin with faces 0 and 1.\<close>

lemma hib_FFT_two_throws:
  "fst (somaVADs_hib [([(0, 1/2), (1, 1/2)], 2)] 1) = Inr [(0, 1/4), (1, 1/2), (2, 1/4)]
   \<and> fst (somaVADs_FFT [([(0, 1/2), (1, 1/2)], 2)] 1) = Inr [(0, 1/4), (1, 1/2), (2, 1/4)]"
proof -
  have "nova_VAD [(0, 1/2), (1, 1/2)] 2 1 = Inr [(0, 1/4), (1, 1/2), (2, 1/4)]"
    by (subst nova_VAD_cyclic [where S_Z = "[0, 1, 2]"])
       (simp_all add: arange_def cyc_eval numeral_2_eq_2)
  moreover have "fst (somaVADs_FFT [([(0, 1/2), (1, 1/2)], 2)] 1)
        = Inr [(0, 1/4), (1, 1/2), (2, 1/4)]"
    by (subst FFT_cyclic [where S_Z = "[0, 1, 2]"])
       (simp_all add: dot_def arange_def cyc_eval numeral_2_eq_2)
  ultimately show ?thesis
    by (simp add: somaVADs_hib_def conv_single)
qed

end
